theory Spec2Isabelle
  imports Main "HOL-Library.AList" "HOL-Library.Extended_Nat"
begin

section \<open>Data model of \<^verbatim>\<open>processing.py\<close>\<close>

text \<open>
  A node of a linearised document is the Python list
  \<^verbatim>\<open>[parent_tag, tag_or_attribute, depth]\<close>, with a fourth element (the text) under the
  \<^verbatim>\<open>wagner\<close> algorithm (\<^verbatim>\<open>preprocess_xml\<close>). The second element is a tag string or the
  two-element list \<^verbatim>\<open>[attr_name, attr_value]\<close>. Strings are lists of code points below 256.
  Two nodes are equal when all their elements are, which is equality of the record.
\<close>

datatype label = Tag string | Attr string string

record node =
  parentLabel :: string
  label :: label
  depth :: int
  node_text :: "string option"

type_synonym tree = "node list"

type_synonym fragment = "node list"

text \<open>
  The exceptions of the Python runtime that the modelled functions can raise.
  \<open>EmptyTreeError\<close> is the error kind named in section 7 of the specification; no statement
  of the source raises it (the source declares no exception class at all).
\<close>

datatype error = IndexError | KeyError | TypeError | EmptyTreeError

section \<open>Subtree extraction: \<^verbatim>\<open>subTrees\<close>\<close>

text \<open>
  The state of the \<^verbatim>\<open>for node in tree\<close> loop is
  \<open>(current_subtree, current_level, subTrees)\<close>; \<open>subTrees_step\<close> is one iteration of it,
  and \<open>subTrees_close\<close> the statement after the loop. \<^verbatim>\<open>tree[0][2]\<close> raises
  \<^verbatim>\<open>IndexError\<close> on the empty list, before anything is appended.
\<close>

fun subTrees_step :: "node \<Rightarrow> fragment \<times> int \<times> fragment list \<Rightarrow> fragment \<times> int \<times> fragment list" where
  "subTrees_step n (current_subtree, current_level, out) =
     (if depth n \<ge> current_level then (current_subtree @ [n], current_level, out)
      else ([n], depth n,
            (if current_subtree \<noteq> [] then out @ [current_subtree] else out)))"

fun subTrees_close :: "fragment \<times> int \<times> fragment list \<Rightarrow> fragment list" where
  "subTrees_close (current_subtree, current_level, out) =
     (if current_subtree \<noteq> [] then out @ [current_subtree] else out)"

definition subTrees :: "tree \<Rightarrow> fragment list \<Rightarrow> error + fragment list" where
  "subTrees tree out =
     (case tree of
        [] \<Rightarrow> Inl IndexError
      | first # _ \<Rightarrow> Inr (subTrees_close (fold subTrees_step tree ([], depth first, out))))"

section \<open>Subtree indexing: \<^verbatim>\<open>rename\<close>\<close>

text \<open>
  \<^verbatim>\<open>f"{prefix}{index}"\<close> formats the index in decimal; \<open>str_nat\<close> is Python's
  \<^verbatim>\<open>str\<close> on the non-negative integers (the only indices \<^verbatim>\<open>rename\<close> meets when it is
  started at 0).
\<close>

definition digit_char :: "nat \<Rightarrow> char" where
  "digit_char d = ''0123456789'' ! d"

fun str_nat :: "nat \<Rightarrow> string" where
  "str_nat n = (if n < 10 then [digit_char n] else str_nat (n div 10) @ [digit_char (n mod 10)])"

declare str_nat.simps [simp del]

text \<open>
  A value of the dictionary is the Python dict
  \<^verbatim>\<open>{'parent': ..., 'tree': ..., 'children': [...]}\<close>; the parent of a top-level entry is the
  empty string. A Python dict keeps its keys in insertion order and an assignment to a key
  that is present keeps the key's place: an association list under \<open>AList.update\<close>.
\<close>

record entry =
  entry_parent :: string
  entry_tree :: fragment
  entry_children :: "string list"

type_synonym dictionary = "(string \<times> entry) list"

text \<open>
  \<open>rename_loop\<close> is the \<^verbatim>\<open>for i in range(index + 1, len(trees))\<close> loop of \<^verbatim>\<open>rename\<close>, from
  position \<open>i\<close> on. \<^verbatim>\<open>trees[i][0]\<close> and \<^verbatim>\<open>current_tree[0]\<close> raise \<^verbatim>\<open>IndexError\<close> on an
  empty fragment, \<^verbatim>\<open>dictionary[parent]\<close> raises \<^verbatim>\<open>KeyError\<close> on a missing key.
\<close>

function rename :: "fragment list \<Rightarrow> nat \<Rightarrow> string \<Rightarrow> string \<Rightarrow> dictionary \<Rightarrow> error + dictionary"
  and rename_loop :: "fragment list \<Rightarrow> nat \<Rightarrow> fragment \<Rightarrow> string \<Rightarrow> string \<Rightarrow> dictionary
                        \<Rightarrow> error + dictionary"
where
  "rename trees index parent prefix dictionary =
     (if index \<ge> length trees then Inr dictionary
      else
        let current_tree = trees ! index;
            new_name = prefix @ str_nat index;
            d1 = AList.update new_name
                   \<lparr>entry_parent = parent, entry_tree = current_tree, entry_children = []\<rparr>
                   dictionary
        in case (if parent \<noteq> []
                 then (case map_of d1 parent of
                         None \<Rightarrow> Inl KeyError
                       | Some e \<Rightarrow>
                           Inr (AList.update parent
                                  (e\<lparr>entry_children := entry_children e @ [new_name]\<rparr>) d1))
                 else Inr d1) of
             Inl err \<Rightarrow> Inl err
           | Inr d2 \<Rightarrow> rename_loop trees (index + 1) current_tree new_name prefix d2)"
| "rename_loop trees i current_tree new_name prefix dictionary =
     (if i \<ge> length trees then Inr dictionary
      else
        case trees ! i of
          [] \<Rightarrow> Inl IndexError
        | a # _ \<Rightarrow>
            (case current_tree of
               [] \<Rightarrow> Inl IndexError
             | c # _ \<Rightarrow>
                 if depth a > depth c
                 then (case rename trees i new_name prefix dictionary of
                         Inl err \<Rightarrow> Inl err
                       | Inr d' \<Rightarrow> rename_loop trees (i + 1) current_tree new_name prefix d')
                 else Inr dictionary))"
  by pat_completeness auto
termination
  by (relation "measure (\<lambda>x. case x of
          Inl (trees, index, _) \<Rightarrow> 2 * (length trees - index)
        | Inr (trees, i, _) \<Rightarrow> 2 * (length trees - i) + 1)") auto

declare rename.simps [simp del] rename_loop.simps [simp del]

section \<open>Word distance: \<^verbatim>\<open>wagnerFisher\<close> and \<^verbatim>\<open>wfCostUpdate\<close>\<close>

text \<open>
  \<^verbatim>\<open>str.split()\<close> with no argument cuts at runs of whitespace and returns no empty word.
  \<open>is_space\<close> lists the code points below 256 for which \<^verbatim>\<open>str.isspace\<close> holds.
\<close>

definition is_space :: "char \<Rightarrow> bool" where
  "is_space c = (of_char c \<in> {9, 10, 11, 12, 13, 28, 29, 30, 31, 32, 133, 160 :: nat})"

fun split_from :: "string \<Rightarrow> string \<Rightarrow> string list" where
  "split_from word [] = (if word = [] then [] else [word])"
| "split_from word (c # cs) =
     (if is_space c then (if word = [] then split_from [] cs else word # split_from [] cs)
      else split_from (word @ [c]) cs)"

definition split :: "string \<Rightarrow> string list" where
  "split s = split_from [] s"

definition wfCostUpdate :: "string \<Rightarrow> string \<Rightarrow> int" where
  "wfCostUpdate wordA wordB =
     (if wordA = wordB then 1 else abs (int (length wordA) - int (length wordB)))"

text \<open>\<^verbatim>\<open>M[i][j] = v\<close> on a list of lists, for \<open>i\<close> and \<open>j\<close> in range (as they are in every loop below).\<close>

definition mat_set :: "'a list list \<Rightarrow> nat \<Rightarrow> nat \<Rightarrow> 'a \<Rightarrow> 'a list list" where
  "mat_set M i j v = M[i := (M ! i)[j := v]]"

text \<open>
  An argument of \<^verbatim>\<open>wagnerFisher\<close> is \<open>Some s\<close> for the Python string \<open>s\<close> and \<open>None\<close> for a
  value that is not a \<^verbatim>\<open>str\<close> (\<^verbatim>\<open>isinstance(stringA, str)\<close> fails and the word list is empty).
  The three loops over \<^verbatim>\<open>range(1, M + 1)\<close> and \<^verbatim>\<open>range(1, N + 1)\<close> are folds over the
  matrix \<^verbatim>\<open>Dist\<close>.
\<close>

definition wagnerFisher :: "string option \<Rightarrow> string option \<Rightarrow> int list list \<times> int" where
  "wagnerFisher stringA stringB =
     (let wordsA = (case stringA of Some s \<Rightarrow> split s | None \<Rightarrow> []);
          wordsB = (case stringB of Some s \<Rightarrow> split s | None \<Rightarrow> []);
          M = length wordsA;
          N = length wordsB;
          Dist0 = replicate (M + 1) (replicate (N + 1) 0);
          Dist1 = fold (\<lambda>i Dist. mat_set Dist i 0
                          (Dist ! (i - 1) ! 0 + int (length (wordsA ! (i - 1)))))
                    [1..<M + 1] Dist0;
          Dist2 = fold (\<lambda>j Dist. mat_set Dist 0 j
                          (Dist ! 0 ! (j - 1) + int (length (wordsB ! (j - 1)))))
                    [1..<N + 1] Dist1;
          Dist3 = fold (\<lambda>i. fold (\<lambda>j Dist. mat_set Dist i j
                          (min (Dist ! (i - 1) ! (j - 1)
                                  + wfCostUpdate (wordsA ! (i - 1)) (wordsB ! (j - 1)))
                            (min (Dist ! (i - 1) ! j + int (length (wordsA ! (i - 1))))
                                 (Dist ! i ! (j - 1) + int (length (wordsB ! (j - 1)))))))
                          [1..<N + 1])
                    [1..<M + 1] Dist2
      in (Dist3, Dist3 ! M ! N))"

section \<open>Node and tree distance: \<^verbatim>\<open>nodeDist\<close>, \<^verbatim>\<open>treeDist\<close>, \<^verbatim>\<open>calculateCosts\<close>\<close>

text \<open>
  The distances are Python floats, but only \<^verbatim>\<open>0.0\<close>, \<^verbatim>\<open>1.0\<close>, sums of these (at most one
  per node, so exact) and \<^verbatim>\<open>float('inf')\<close> occur: they are the extended naturals, with the
  same order, minimum and addition. An absent node (\<^verbatim>\<open>None\<close>) is \<open>None\<close>.
\<close>

definition is_list :: "label \<Rightarrow> bool" where
  "is_list l = (case l of Tag _ \<Rightarrow> False | Attr _ _ \<Rightarrow> True)"

definition nodeDist :: "node option \<Rightarrow> node option \<Rightarrow> enat" where
  "nodeDist nodeA nodeB =
     (case nodeA of
        None \<Rightarrow> 1
      | Some a \<Rightarrow>
          (case nodeB of
             None \<Rightarrow> 1
           | Some b \<Rightarrow>
               if is_list (label a) \<or> is_list (label b)
               then (if label a = label b then 0 else 1)
               else (if label a = label b then 0 else 1)))"

text \<open>
  \<open>treeDist_cell\<close> is the body of the inner loop: the cell \<open>(i, j)\<close> is written from the cells
  above and to the left, which the row-major loops have written before. The result,
  \<^verbatim>\<open>costMatrix[-1][-1]\<close>, is the last cell of the last row.
\<close>

definition treeDist_cell :: "fragment \<Rightarrow> fragment \<Rightarrow> nat \<Rightarrow> nat \<Rightarrow> enat list list \<Rightarrow> enat list list" where
  "treeDist_cell treeA treeB i j costMatrix =
     (let update_cost = nodeDist (Some (treeA ! i)) (Some (treeB ! j));
          delete_cost = nodeDist (Some (treeA ! i)) None;
          insert_cost = nodeDist None (Some (treeB ! j))
      in mat_set costMatrix i j
           (min update_cost
             (min (if i > 0 then delete_cost + costMatrix ! (i - 1) ! j else \<infinity>)
                  (if j > 0 then insert_cost + costMatrix ! i ! (j - 1) else \<infinity>))))"

definition treeDist :: "fragment \<Rightarrow> fragment \<Rightarrow> enat" where
  "treeDist treeA treeB =
     (if treeA = [] \<or> treeB = [] then \<infinity>
      else
        let costMatrix0 = replicate (length treeA) (replicate (length treeB) 0);
            costMatrix = fold (\<lambda>i. fold (\<lambda>j. treeDist_cell treeA treeB i j) [0..<length treeB])
                           [0..<length treeA] costMatrix0
        in last (last costMatrix))"

text \<open>
  The inner dictionary of \<^verbatim>\<open>calculateCosts\<close> is keyed by \<^verbatim>\<open>str(target_tree)\<close>; the model
  keys it by the fragment itself (the printed form of a fragment determines the fragment).
\<close>

type_synonym cost_dictionary = "(string \<times> (fragment \<times> enat) list) list"

definition calculateCosts :: "dictionary \<Rightarrow> fragment list \<Rightarrow> cost_dictionary \<Rightarrow> cost_dictionary" where
  "calculateCosts dict_source trees_target dict_costs =
     fold (\<lambda>(key, v) costs.
             AList.update key
               (fold (\<lambda>target_tree row.
                        AList.update target_tree (treeDist (entry_tree v) target_tree) row)
                     trees_target [])
               costs)
          dict_source dict_costs"

section \<open>Flattening: \<^verbatim>\<open>toList\<close>\<close>

text \<open>
  The \<^verbatim>\<open>while stack\<close> loop pops the last element of the stack. On a dictionary whose
  children lists form a cycle it never ends, so the loop is a partial function: \<open>None\<close> is
  "does not return", \<open>Some (Inl KeyError)\<close> a child that is not a key.
\<close>

partial_function (option) toList_loop ::
  "dictionary \<Rightarrow> string list \<Rightarrow> string list \<Rightarrow> (error + string list) option"
where
  "toList_loop dictionary stack result =
     (if stack = [] then Some (Inr result)
      else
        let current = last stack;
            stack1 = butlast stack;
            result1 = result @ [current]
        in case map_of dictionary current of
             None \<Rightarrow> Some (Inl KeyError)
           | Some v \<Rightarrow> toList_loop dictionary (stack1 @ rev (entry_children v)) result1)"

declare toList_loop.simps [code]

definition toList :: "dictionary \<Rightarrow> (error + string list) option" where
  "toList dictionary =
     toList_loop dictionary [k. (k, v) \<leftarrow> dictionary, entry_parent v = []] []"

section \<open>Edit scripts: \<^verbatim>\<open>generateEditScript\<close>, \<^verbatim>\<open>run\<close> and \<^verbatim>\<open>patch\<close>\<close>

text \<open>
  An operation is the tuple \<^verbatim>\<open>(kind, source, target)\<close>, with \<^verbatim>\<open>None\<close> for the absent side.
  What the generator stores in it are the \<^verbatim>\<open>'tree'\<close> values of the dictionaries: fragments.
\<close>

datatype op_kind = Update | Delete | Insert

type_synonym edit_op = "op_kind \<times> fragment option \<times> fragment option"

text \<open>
  \<^verbatim>\<open>compare_nodes\<close> is called on two fragments, so \<^verbatim>\<open>nodeA[1]\<close> is the second node of the
  fragment (\<^verbatim>\<open>IndexError\<close> when there is none) and \<^verbatim>\<open>len(nodeA) > 3\<close> counts nodes. Under
  \<^verbatim>\<open>'wagner'\<close>, \<^verbatim>\<open>wagnerFisher(nodeA[3], nodeB[3])\<close> is called on two nodes, which are not
  strings; it returns the pair of the matrix and the cost, \<^verbatim>\<open>dist\<close> is bound to the matrix,
  and \<^verbatim>\<open>dist > 0\<close> compares a list with an integer: \<^verbatim>\<open>TypeError\<close>.
\<close>

definition compare_nodes :: "string \<Rightarrow> fragment \<Rightarrow> fragment \<Rightarrow> edit_op list \<Rightarrow> error + edit_op list" where
  "compare_nodes algorithm nodeA nodeB edit_script =
     (if length nodeA \<le> 1 \<or> length nodeB \<le> 1 then Inl IndexError
      else if nodeA ! 1 \<noteq> nodeB ! 1 then
        (if algorithm = ''wagner'' \<and> length nodeA > 3 \<and> length nodeB > 3
         then (case wagnerFisher None None of (Dist, _) \<Rightarrow> Inl TypeError)
         else Inr (edit_script @ [(Update, Some nodeA, Some nodeB)]))
      else Inr edit_script)"

text \<open>The first loop of \<^verbatim>\<open>process_trees\<close>, over the rest of \<^verbatim>\<open>listA\<close>.\<close>

fun delete_pass :: "dictionary \<Rightarrow> string list \<Rightarrow> string list \<Rightarrow> edit_op list \<Rightarrow> error + edit_op list" where
  "delete_pass dictA listB [] edit_script = Inr edit_script"
| "delete_pass dictA listB (nodeA # rest) edit_script =
     (if nodeA \<notin> set listB
      then (case map_of dictA nodeA of
              None \<Rightarrow> Inl KeyError
            | Some v \<Rightarrow>
                delete_pass dictA listB rest (edit_script @ [(Delete, Some (entry_tree v), None)]))
      else delete_pass dictA listB rest edit_script)"

text \<open>
  The second loop, over the rest of \<^verbatim>\<open>listB\<close>. In its \<^verbatim>\<open>else\<close> branch \<^verbatim>\<open>nodeA\<close> is the
  variable the first loop left behind: the last element of \<^verbatim>\<open>listA\<close> (which is not empty
  there, since \<^verbatim>\<open>nodeB\<close> is in it).
\<close>

fun insert_pass ::
  "string \<Rightarrow> dictionary \<Rightarrow> dictionary \<Rightarrow> string list \<Rightarrow> string list \<Rightarrow> edit_op list
     \<Rightarrow> error + edit_op list"
where
  "insert_pass algorithm dictA dictB listA [] edit_script = Inr edit_script"
| "insert_pass algorithm dictA dictB listA (nodeB # rest) edit_script =
     (if nodeB \<notin> set listA
      then (case map_of dictB nodeB of
              None \<Rightarrow> Inl KeyError
            | Some v \<Rightarrow>
                insert_pass algorithm dictA dictB listA rest
                  (edit_script @ [(Insert, None, Some (entry_tree v))]))
      else (case map_of dictA (last listA) of
              None \<Rightarrow> Inl KeyError
            | Some va \<Rightarrow>
                (case map_of dictB nodeB of
                   None \<Rightarrow> Inl KeyError
                 | Some vb \<Rightarrow>
                     (case compare_nodes algorithm (entry_tree va) (entry_tree vb) edit_script of
                        Inl err \<Rightarrow> Inl err
                      | Inr edit_script1 \<Rightarrow>
                          insert_pass algorithm dictA dictB listA rest edit_script1))))"

definition process_trees ::
  "string \<Rightarrow> dictionary \<Rightarrow> dictionary \<Rightarrow> edit_op list \<Rightarrow> (error + edit_op list) option"
where
  "process_trees algorithm dictA dictB edit_script =
     (case toList dictA of
        None \<Rightarrow> None
      | Some (Inl err) \<Rightarrow> Some (Inl err)
      | Some (Inr listA) \<Rightarrow>
          (case toList dictB of
             None \<Rightarrow> None
           | Some (Inl err) \<Rightarrow> Some (Inl err)
           | Some (Inr listB) \<Rightarrow>
               Some (case delete_pass dictA listB listA edit_script of
                       Inl err \<Rightarrow> Inl err
                     | Inr edit_script1 \<Rightarrow>
                         insert_pass algorithm dictA dictB listA listB edit_script1)))"

definition generateEditScript ::
  "dictionary \<Rightarrow> dictionary \<Rightarrow> string \<Rightarrow> (error + edit_op list) option"
where
  "generateEditScript treeA treeB algorithm = process_trees algorithm treeA treeB []"

text \<open>
  \<^verbatim>\<open>run\<close> assigns eight module globals and returns the edit script; the model returns the
  globals beside the script.
\<close>

record globals =
  dictA :: dictionary
  dictB :: dictionary
  subTreesA :: "fragment list"
  subTreesB :: "fragment list"
  dictCostsA :: cost_dictionary
  dictCostsB :: cost_dictionary
  ListofTreesA :: "string list"
  ListofTreesB :: "string list"

definition run :: "tree \<Rightarrow> tree \<Rightarrow> string \<Rightarrow> (error + globals \<times> edit_op list) option" where
  "run tree1 tree2 algorithm =
     (case subTrees tree1 [] of
        Inl err \<Rightarrow> Some (Inl err)
      | Inr sA \<Rightarrow>
     (case subTrees tree2 [] of
        Inl err \<Rightarrow> Some (Inl err)
      | Inr sB \<Rightarrow>
     (case rename sA 0 [] ''A'' [] of
        Inl err \<Rightarrow> Some (Inl err)
      | Inr dA \<Rightarrow>
     (case rename sB 0 [] ''B'' [] of
        Inl err \<Rightarrow> Some (Inl err)
      | Inr dB \<Rightarrow>
     (let cA = calculateCosts dA sB [];
          cB = calculateCosts dB sA []
      in case toList dA of
           None \<Rightarrow> None
         | Some (Inl err) \<Rightarrow> Some (Inl err)
         | Some (Inr lA) \<Rightarrow>
        (case toList dB of
           None \<Rightarrow> None
         | Some (Inl err) \<Rightarrow> Some (Inl err)
         | Some (Inr lB) \<Rightarrow>
        (case generateEditScript dA dB algorithm of
           None \<Rightarrow> None
         | Some (Inl err) \<Rightarrow> Some (Inl err)
         | Some (Inr edit_script) \<Rightarrow>
             Some (Inr (\<lparr>dictA = dA, dictB = dB, subTreesA = sA, subTreesB = sB,
                         dictCostsA = cA, dictCostsB = cB,
                         ListofTreesA = lA, ListofTreesB = lB\<rparr>, edit_script)))))))))"

text \<open>
  \<^verbatim>\<open>patch\<close> appends the target of every update and insert, whatever it is, and skips the
  deletes.
\<close>

fun patch :: "edit_op list \<Rightarrow> fragment option list" where
  "patch [] = []"
| "patch ((operation, source, target) # rest) =
     (if operation = Update then target # patch rest
      else if operation = Insert then target # patch rest
      else patch rest)"

section \<open>Notions of the specification used in the statements\<close>

text \<open>
  These are not functions of the source. \<open>first_fragment\<close> is the longest prefix of a tree
  whose nodes are all at least as deep as its first node. \<open>relabel\<close> applies a function to
  the label of a node and another to its reference to the parent's label (section 8,
  relabelling). \<open>script_shape\<close> keeps of an outcome of \<^verbatim>\<open>run\<close> the kinds of the operations,
  in order, or the error.
\<close>

definition first_fragment :: "tree \<Rightarrow> fragment" where
  "first_fragment t = takeWhile (\<lambda>n. depth (hd t) \<le> depth n) t"

definition relabel :: "(label \<Rightarrow> label) \<Rightarrow> (string \<Rightarrow> string) \<Rightarrow> node \<Rightarrow> node" where
  "relabel f g n = n\<lparr>label := f (label n), parentLabel := g (parentLabel n)\<rparr>"

definition script_shape :: "(error + globals \<times> edit_op list) option \<Rightarrow> (error + op_kind list) option" where
  "script_shape outcome = map_option (map_sum id (\<lambda>(g, script). map fst script)) outcome"

text \<open>
  For the indexer: the base depth of a (non-empty) fragment is the depth of its first node;
  the span of the fragment at position \<open>i\<close> ends (exclusively) at \<open>span_end trees i\<close>, the
  first later position whose fragment is not deeper than fragment \<open>i\<close>, or the length of
  the list; \<open>indexed_count\<close> is the end of the span of position 0; and \<open>indexed trees prefix m d\<close>
  says that the keys of \<open>d\<close> are, in order, the names of the positions below \<open>m\<close>, each
  holding the fragment at its position and having as children only names of later positions
  below \<open>m\<close>.
\<close>

definition base_depth :: "fragment \<Rightarrow> int" where
  "base_depth f = depth (hd f)"

definition span_end :: "fragment list \<Rightarrow> nat \<Rightarrow> nat" where
  "span_end trees i =
     Suc i + length (takeWhile (\<lambda>g. base_depth g > base_depth (trees ! i)) (drop (Suc i) trees))"

definition indexed_count :: "fragment list \<Rightarrow> nat" where
  "indexed_count trees = (if trees = [] then 0 else span_end trees 0)"

definition indexed :: "fragment list \<Rightarrow> string \<Rightarrow> nat \<Rightarrow> dictionary \<Rightarrow> bool" where
  "indexed trees prefix m d \<longleftrightarrow>
     map fst d = map (\<lambda>i. prefix @ str_nat i) [0..<m]
     \<and> (\<forall>i < m. map_option entry_tree (map_of d (prefix @ str_nat i)) = Some (trees ! i))
     \<and> (\<forall>i < m. \<forall>e. map_of d (prefix @ str_nat i) = Some e \<longrightarrow>
            (\<forall>c \<in> set (entry_children e). \<exists>j. i < j \<and> j < m \<and> c = prefix @ str_nat j))"

text \<open>
  For the generator: the Named-Tree Map of the specification is a forest of identities.
  \<open>roots d\<close> are the keys without parent, in the order of the dictionary (the list the
  flattener starts from). \<open>subtree_within d n k\<close> says that \<open>k\<close> is a key of \<open>d\<close> and so is every
  name reached from it through the children lists, along chains of fewer than \<open>n\<close> steps
  (so no chain of children comes back to itself). \<open>named_tree_map d n\<close> says so of every
  root, \<open>preorder d n k\<close> lists \<open>k\<close> and what hangs below it in pre-order, and \<open>flattened d n\<close>
  is the pre-order of the whole map, the last root first.
\<close>

definition roots :: "dictionary \<Rightarrow> string list" where
  "roots d = [k. (k, v) \<leftarrow> d, entry_parent v = []]"

fun subtree_within :: "dictionary \<Rightarrow> nat \<Rightarrow> string \<Rightarrow> bool" where
  "subtree_within d 0 k = False"
| "subtree_within d (Suc n) k =
     (case map_of d k of
        None \<Rightarrow> False
      | Some v \<Rightarrow> list_all (subtree_within d n) (entry_children v))"

fun preorder :: "dictionary \<Rightarrow> nat \<Rightarrow> string \<Rightarrow> string list" where
  "preorder d 0 k = []"
| "preorder d (Suc n) k =
     (case map_of d k of
        None \<Rightarrow> []
      | Some v \<Rightarrow> k # concat (map (preorder d n) (entry_children v)))"

definition named_tree_map :: "dictionary \<Rightarrow> nat \<Rightarrow> bool" where
  "named_tree_map d n = list_all (subtree_within d n) (roots d)"

definition flattened :: "dictionary \<Rightarrow> nat \<Rightarrow> string list" where
  "flattened d n = concat (map (preorder d n) (rev (roots d)))"

text \<open>A bijection on labels that is not the identity: it exchanges the tags \<^verbatim>\<open>a\<close> and \<^verbatim>\<open>b\<close>.\<close>

definition swap_a_b :: "label \<Rightarrow> label" where
  "swap_a_b l = (if l = Tag ''a'' then Tag ''b'' else if l = Tag ''b'' then Tag ''a'' else l)"

section \<open>Properties of the extractor\<close>

lemma subTrees_loop_extends:
  "\<exists>fs. subTrees_close (fold subTrees_step xs (cur, lvl, out)) = out @ fs
      \<and> (\<forall>f \<in> set fs. f \<noteq> []) \<and> concat fs = cur @ xs"
proof (induction xs arbitrary: cur lvl out)
  case Nil
  show ?case by simp
next
  case (Cons x xs)
  show ?case
  proof (cases "depth x \<ge> lvl")
    case True
    from Cons.IH [of "cur @ [x]" lvl out] True show ?thesis by simp
  next
    case False
    from Cons.IH [of "[x]" "depth x" "if cur \<noteq> [] then out @ [cur] else out"]
    obtain fs where fs:
      "subTrees_close (fold subTrees_step xs ([x], depth x, if cur \<noteq> [] then out @ [cur] else out))
         = (if cur \<noteq> [] then out @ [cur] else out) @ fs"
      "\<forall>f \<in> set fs. f \<noteq> []" "concat fs = [x] @ xs"
      by blast
    show ?thesis
    proof (cases "cur = []")
      case True
      with False fs show ?thesis by simp
    next
      case nonempty: False
      with False fs have
        "subTrees_close (fold subTrees_step (x # xs) (cur, lvl, out)) = out @ (cur # fs)"
        by simp
      moreover from nonempty fs have "\<forall>f \<in> set (cur # fs). f \<noteq> []" by simp
      moreover from fs have "concat (cur # fs) = cur @ x # xs" by simp
      ultimately show ?thesis by blast
    qed
  qed
qed

lemma subTrees_loop_same_level:
  assumes "\<forall>n \<in> set xs. lvl \<le> depth n"
  shows "fold subTrees_step xs (cur, lvl, out) = (cur @ xs, lvl, out)"
  using assms by (induction xs arbitrary: cur) auto

lemma subTrees_loop_head:
  assumes "cur \<noteq> []"
  shows "\<exists>f fs. subTrees_close (fold subTrees_step xs (cur, lvl, out)) = out @ f # fs
           \<and> f \<noteq> [] \<and> hd f = hd cur"
  using assms
proof (induction xs arbitrary: cur lvl out)
  case Nil
  then show ?case by simp
next
  case (Cons x xs)
  show ?case
  proof (cases "lvl \<le> depth x")
    case True
    from Cons.IH [of "cur @ [x]" lvl out] Cons.prems True show ?thesis by simp
  next
    case False
    from Cons.IH [of "[x]" "depth x" "out @ [cur]"]
    obtain f fs where
      "subTrees_close (fold subTrees_step xs ([x], depth x, out @ [cur])) = (out @ [cur]) @ f # fs"
      by auto
    with False Cons.prems show ?thesis by simp
  qed
qed

lemma subTrees_nonempty:
  assumes "t \<noteq> []"
  shows "subTrees t out = Inr (subTrees_close (fold subTrees_step t ([], depth (hd t), out)))"
  using assms by (cases t) (simp_all add: subTrees_def)

lemma first_fragment_head:
  assumes "t \<noteq> []"
  shows "first_fragment t \<noteq> []" and "hd (first_fragment t) = hd t"
  using assms by (cases t; simp add: first_fragment_def)+

lemma subTrees_first_fragment:
  assumes "t \<noteq> []"
  shows "\<exists>fs. subTrees t [] = Inr (first_fragment t # fs)
          \<and> (fs = [] \<or> (hd fs \<noteq> [] \<and> depth (hd (hd fs)) < depth (hd t)))"
proof -
  let ?P = "\<lambda>n. depth (hd t) \<le> depth n"
  let ?lvl = "depth (hd t)"
  note ne = first_fragment_head [OF assms]
  have "\<forall>n \<in> set (first_fragment t). ?lvl \<le> depth n"
    by (auto simp: first_fragment_def dest: set_takeWhileD)
  then have "fold subTrees_step (first_fragment t) ([], ?lvl, []) = (first_fragment t, ?lvl, [])"
    using subTrees_loop_same_level [of "first_fragment t" ?lvl "[]" "[]"] by simp
  then have "fold subTrees_step (first_fragment t @ dropWhile ?P t) ([], ?lvl, [])
               = fold subTrees_step (dropWhile ?P t) (first_fragment t, ?lvl, [])"
    by (simp only: fold_append o_apply)
  moreover have "first_fragment t @ dropWhile ?P t = t"
    by (simp add: first_fragment_def)
  ultimately have split: "fold subTrees_step t ([], ?lvl, [])
               = fold subTrees_step (dropWhile ?P t) (first_fragment t, ?lvl, [])"
    by simp
  show ?thesis
  proof (cases "dropWhile ?P t")
    case Nil
    with split ne have "subTrees t [] = Inr [first_fragment t]"
      by (simp add: subTrees_nonempty [OF assms])
    then show ?thesis by simp
  next
    case (Cons n rest')
    have "\<not> ?P (hd (dropWhile ?P t))"
      by (rule hd_dropWhile) (simp add: Cons)
    then have low: "depth n < ?lvl" by (simp add: Cons)
    from split Cons low ne have "fold subTrees_step t ([], ?lvl, []) =
            fold subTrees_step rest' ([n], depth n, [first_fragment t])"
      by simp
    moreover from subTrees_loop_head [of "[n]" rest' "depth n" "[first_fragment t]"]
    obtain f fs where
      "subTrees_close (fold subTrees_step rest' ([n], depth n, [first_fragment t]))
         = [first_fragment t] @ f # fs" "f \<noteq> []" "hd f = n"
      by auto
    ultimately have "subTrees t [] = Inr (first_fragment t # f # fs)" "f \<noteq> []" "hd f = n"
      by (simp_all add: subTrees_nonempty [OF assms])
    with low show ?thesis by simp
  qed
qed

text \<open>
  Claim C4. For every non-empty tree the extractor returns (it does not raise), what it
  appends to the output list is a list of non-empty fragments, and the concatenation of
  these fragments, in order, is the tree itself: every node once, in the original order.
\<close>

theorem subTrees_partition:
  assumes "tree \<noteq> []"
  shows "\<exists>fs. subTrees tree out = Inr (out @ fs) \<and> concat fs = tree \<and> [] \<notin> set fs"
proof -
  from assms obtain first rest where t: "tree = first # rest" by (cases tree) auto
  from subTrees_loop_extends [of tree "[]" "depth first" out]
  obtain fs where "subTrees_close (fold subTrees_step tree ([], depth first, out)) = out @ fs"
    "\<forall>f \<in> set fs. f \<noteq> []" "concat fs = tree"
    by auto
  with t show ?thesis unfolding subTrees_def by auto
qed

theorem subTrees_partition_witness:
  "\<exists>fs. subTrees [\<lparr>parentLabel = ''0'', label = Tag ''a'', depth = 1, node_text = None\<rparr>,
                   \<lparr>parentLabel = ''a'', label = Tag ''0'', depth = 2, node_text = None\<rparr>,
                   \<lparr>parentLabel = ''0'', label = Tag ''c'', depth = 0, node_text = None\<rparr>] []
         = Inr ([] @ fs)
       \<and> concat fs = [\<lparr>parentLabel = ''0'', label = Tag ''a'', depth = 1, node_text = None\<rparr>,
                   \<lparr>parentLabel = ''a'', label = Tag ''0'', depth = 2, node_text = None\<rparr>,
                   \<lparr>parentLabel = ''0'', label = Tag ''c'', depth = 0, node_text = None\<rparr>]
       \<and> [] \<notin> set fs"
  using subTrees_partition
    [of "[\<lparr>parentLabel = ''0'', label = Tag ''a'', depth = 1, node_text = None\<rparr>,
          \<lparr>parentLabel = ''a'', label = Tag ''0'', depth = 2, node_text = None\<rparr>,
          \<lparr>parentLabel = ''0'', label = Tag ''c'', depth = 0, node_text = None\<rparr>]" "[]"]
  by simp

text \<open>
  Claim C8 (as amended). On the empty tree the extractor fails at its first statement, the
  read of \<^verbatim>\<open>tree[0]\<close>, with Python's \<^verbatim>\<open>IndexError\<close>, whatever the output list holds, and
  \<^verbatim>\<open>run\<close> hands that error to its caller when either input tree is empty.
\<close>

theorem subTrees_empty_raises:
  "subTrees [] out = Inl IndexError
     \<and> run [] tree2 algorithm = Some (Inl IndexError)
     \<and> run tree1 [] algorithm = Some (Inl IndexError)"
  by (simp add: run_def subTrees_def split: list.splits)

text \<open>
  The claim as stated names \<open>EmptyTreeError\<close>: that is not the error the extractor returns
  on the empty tree.
\<close>

theorem subTrees_empty_not_EmptyTreeError:
  "subTrees [] [] \<noteq> Inl EmptyTreeError \<and> subTrees [] [] = Inl IndexError"
  by (simp add: subTrees_def)

section \<open>Properties of the word distance\<close>

lemma wagnerFisher_a_b:
  "wagnerFisher (Some ''a b'') (Some ''a b'') = ([[0, 1, 2], [1, 1, 1], [2, 1, 2]], 2)"
  by code_simp

text \<open>
  Claim C6. Substituting a word for itself costs 1 and substituting it for a different word
  costs the absolute difference of the lengths; and on the inputs \<^verbatim>\<open>"a b"\<close> and \<^verbatim>\<open>"a b"\<close>
  the calculator returns the total cost 2 (not 0).
\<close>

theorem wagnerFisher_substitution_cost:
  "wfCostUpdate a a = 1
     \<and> (a \<noteq> b \<longrightarrow> wfCostUpdate a b = abs (int (length a) - int (length b)))
     \<and> snd (wagnerFisher (Some ''a b'') (Some ''a b'')) = 2
     \<and> snd (wagnerFisher (Some ''a b'') (Some ''a b'')) \<noteq> 0"
  by (simp add: wfCostUpdate_def wagnerFisher_a_b)

theorem wagnerFisher_substitution_cost_witness:
  "wfCostUpdate ''ab'' ''ab'' = 1
     \<and> ''ab'' \<noteq> ''wxyz'' \<and> wfCostUpdate ''ab'' ''wxyz'' = 2
     \<and> snd (wagnerFisher (Some ''a b'') (Some ''a b'')) = 2"
  using wagnerFisher_substitution_cost [of "''ab''" "''wxyz''"] by simp

section \<open>Properties of the tree distance\<close>

lemma mat_set_length: "length (mat_set M i j v) = length M"
  by (simp add: mat_set_def)

lemma mat_set_rows:
  assumes "\<forall>row \<in> set M. length row = c"
  shows "\<forall>row \<in> set (mat_set M i j v). length row = c"
proof (cases "i < length M")
  case True
  then have "length ((M ! i)[j := v]) = c" using assms by simp
  moreover have "set (M[i := (M ! i)[j := v]]) \<subseteq> insert ((M ! i)[j := v]) (set M)"
    by (rule set_update_subset_insert)
  ultimately show ?thesis using assms unfolding mat_set_def by auto
next
  case False
  then show ?thesis using assms by (simp add: mat_set_def list_update_beyond)
qed

lemma treeDist_cell_dims:
  assumes "length M = r \<and> (\<forall>row \<in> set M. length row = c)"
  shows "length (treeDist_cell A B i j M) = r \<and> (\<forall>row \<in> set (treeDist_cell A B i j M). length row = c)"
  using assms mat_set_rows [of M c i j] by (simp add: treeDist_cell_def Let_def mat_set_length)

lemma treeDist_row_dims:
  assumes "length M = r \<and> (\<forall>row \<in> set M. length row = c)"
  shows "length (fold (\<lambda>j. treeDist_cell A B i j) js M) = r
       \<and> (\<forall>row \<in> set (fold (\<lambda>j. treeDist_cell A B i j) js M). length row = c)"
  using assms
proof (induction js arbitrary: M)
  case Nil
  then show ?case by simp
next
  case (Cons j js)
  from Cons.IH [OF treeDist_cell_dims [OF Cons.prems]] show ?case by simp
qed

lemma treeDist_rows_dims:
  assumes "length M = r \<and> (\<forall>row \<in> set M. length row = c)"
  shows "length (fold (\<lambda>i. fold (\<lambda>j. treeDist_cell A B i j) js) is M) = r
       \<and> (\<forall>row \<in> set (fold (\<lambda>i. fold (\<lambda>j. treeDist_cell A B i j) js) is M). length row = c)"
  using assms
proof (induction "is" arbitrary: M)
  case Nil
  then show ?case by simp
next
  case (Cons i "is")
  from Cons.IH [OF treeDist_row_dims [OF Cons.prems]] show ?case by simp
qed

lemma last_last_mat_set:
  assumes "length M = Suc k" and "length (M ! k) = Suc l"
  shows "last (last (mat_set M k l v)) = v"
proof -
  from assms have ne: "M \<noteq> []" "M ! k \<noteq> []" by auto
  have "last (mat_set M k l v) = (M ! k)[l := v]"
    using assms(1) ne(1) by (simp add: mat_set_def last_list_update)
  moreover have "last ((M ! k)[l := v]) = v"
    using assms(2) ne(2) by (simp add: last_list_update)
  ultimately show ?thesis by simp
qed

lemma treeDist_last_cell:
  assumes "A \<noteq> []" and "B \<noteq> []"
  shows "\<exists>M. treeDist A B = last (last (treeDist_cell A B (length A - 1) (length B - 1) M))
           \<and> length M = length A \<and> (\<forall>row \<in> set M. length row = length B)"
proof -
  obtain k where k: "length A = Suc k" using assms(1) by (cases A) auto
  obtain l where l: "length B = Suc l" using assms(2) by (cases B) auto
  let ?row = "\<lambda>i. fold (\<lambda>j. treeDist_cell A B i j) [0..<length B]"
  define M0 :: "enat list list" where "M0 = replicate (length A) (replicate (length B) 0)"
  define M1 where "M1 = fold ?row [0..<k] M0"
  define M2 where "M2 = fold (\<lambda>j. treeDist_cell A B k j) [0..<l] M1"
  have d0: "length M0 = length A \<and> (\<forall>row \<in> set M0. length row = length B)"
    by (simp add: M0_def)
  have d1: "length M1 = length A \<and> (\<forall>row \<in> set M1. length row = length B)"
    unfolding M1_def by (rule treeDist_rows_dims [OF d0])
  have d2: "length M2 = length A \<and> (\<forall>row \<in> set M2. length row = length B)"
    unfolding M2_def by (rule treeDist_row_dims [OF d1])
  have "fold ?row [0..<length A] M0 = treeDist_cell A B k l M2"
    by (simp add: k l M1_def M2_def)
  then have "treeDist A B = last (last (treeDist_cell A B k l M2))"
    using assms by (simp add: treeDist_def Let_def M0_def)
  with d2 k l show ?thesis by auto
qed

lemma treeDist_equal_last_label:
  assumes "A \<noteq> []" and "B \<noteq> []" and "label (last A) = label (last B)"
  shows "treeDist A B = 0"
proof -
  from treeDist_last_cell [OF assms(1,2)] obtain M where M:
    "treeDist A B = last (last (treeDist_cell A B (length A - 1) (length B - 1) M))"
    "length M = length A" "\<forall>row \<in> set M. length row = length B"
    by blast
  obtain k where k: "length A = Suc k" using assms(1) by (cases A) auto
  obtain l where l: "length B = Suc l" using assms(2) by (cases B) auto
  have row: "length (M ! k) = Suc l" using M(2,3) k l by simp
  have upd: "nodeDist (Some (A ! k)) (Some (B ! l)) = 0"
    using assms k l by (simp add: nodeDist_def last_conv_nth)
  have "last (last (treeDist_cell A B k l M)) = 0"
    unfolding treeDist_cell_def Let_def upd
    using last_last_mat_set [of M k l] M(2) k row by simp
  with M(1) k l show ?thesis by simp
qed

text \<open>
  Claim C7. The distance between a non-empty fragment and the empty fragment is infinite, and
  the distance between a non-empty fragment and itself is 0.
\<close>

theorem treeDist_empty_and_self:
  assumes "A \<noteq> []"
  shows "treeDist A [] = \<infinity> \<and> treeDist A A = 0"
  using assms treeDist_equal_last_label [of A A] by (simp add: treeDist_def)

theorem treeDist_empty_and_self_witness:
  "treeDist [\<lparr>parentLabel = ''0'', label = Tag ''a'', depth = 0, node_text = None\<rparr>,
             \<lparr>parentLabel = ''a'', label = Attr ''id'' ''7'', depth = 1, node_text = None\<rparr>] [] = \<infinity>
     \<and> treeDist [\<lparr>parentLabel = ''0'', label = Tag ''a'', depth = 0, node_text = None\<rparr>,
                 \<lparr>parentLabel = ''a'', label = Attr ''id'' ''7'', depth = 1, node_text = None\<rparr>]
                [\<lparr>parentLabel = ''0'', label = Tag ''a'', depth = 0, node_text = None\<rparr>,
                 \<lparr>parentLabel = ''a'', label = Attr ''id'' ''7'', depth = 1, node_text = None\<rparr>] = 0"
  using treeDist_empty_and_self
    [of "[\<lparr>parentLabel = ''0'', label = Tag ''a'', depth = 0, node_text = None\<rparr>,
          \<lparr>parentLabel = ''a'', label = Attr ''id'' ''7'', depth = 1, node_text = None\<rparr>]"]
  by simp


section \<open>The pipeline \<^verbatim>\<open>run\<close> on non-empty trees\<close>

lemma rename_first_only:
  assumes "f \<noteq> []" and "fs = [] \<or> (hd fs \<noteq> [] \<and> depth (hd (hd fs)) < depth (hd f))"
  shows "rename (f # fs) 0 [] prefix [] =
           Inr [(prefix @ ''0'', \<lparr>entry_parent = [], entry_tree = f, entry_children = []\<rparr>)]"
proof -
  have s0: "str_nat 0 = ''0''" by (simp add: str_nat.simps digit_char_def)
  from assms(1) obtain c cs where f: "f = c # cs" by (cases f) auto
  show ?thesis
  proof (cases fs)
    case Nil
    then show ?thesis
      by (simp add: rename.simps [of _ 0] rename_loop.simps [of _ "Suc 0"] s0)
  next
    case (Cons g gs)
    with assms(2) obtain a as where g: "g = a # as" "depth a < depth c"
      by (cases g) (auto simp: f)
    with Cons f show ?thesis
      by (simp add: rename.simps [of _ 0] rename_loop.simps [of _ "Suc 0"] s0)
  qed
qed

lemma toList_single:
  "toList [(k, \<lparr>entry_parent = [], entry_tree = f, entry_children = []\<rparr>)] = Some (Inr [k])"
  by (simp add: toList_def toList_loop.simps [of _ "[k]"] toList_loop.simps [of _ "[]"])

lemma generateEditScript_single:
  assumes "ka \<noteq> kb"
  shows "generateEditScript
           [(ka, \<lparr>entry_parent = [], entry_tree = fa, entry_children = []\<rparr>)]
           [(kb, \<lparr>entry_parent = [], entry_tree = fb, entry_children = []\<rparr>)] algorithm
         = Some (Inr [(Delete, Some fa, None), (Insert, None, Some fb)])"
  using assms by (simp add: generateEditScript_def process_trees_def toList_single)

lemma run_nonempty:
  assumes "tree1 \<noteq> []" and "tree2 \<noteq> []"
  shows "\<exists>g. run tree1 tree2 algorithm =
           Some (Inr (g, [(Delete, Some (first_fragment tree1), None),
                          (Insert, None, Some (first_fragment tree2))]))
        \<and> dictA g = [(''A0'', \<lparr>entry_parent = [], entry_tree = first_fragment tree1, entry_children = []\<rparr>)]
        \<and> dictB g = [(''B0'', \<lparr>entry_parent = [], entry_tree = first_fragment tree2, entry_children = []\<rparr>)]
        \<and> ListofTreesA g = [''A0''] \<and> ListofTreesB g = [''B0'']"
proof -
  from subTrees_first_fragment [OF assms(1)] obtain fsA where A:
    "subTrees tree1 [] = Inr (first_fragment tree1 # fsA)" "first_fragment tree1 \<noteq> []"
    "fsA = [] \<or> (hd fsA \<noteq> [] \<and> depth (hd (hd fsA)) < depth (hd (first_fragment tree1)))"
    using first_fragment_head [OF assms(1)] by auto
  from subTrees_first_fragment [OF assms(2)] obtain fsB where B:
    "subTrees tree2 [] = Inr (first_fragment tree2 # fsB)" "first_fragment tree2 \<noteq> []"
    "fsB = [] \<or> (hd fsB \<noteq> [] \<and> depth (hd (hd fsB)) < depth (hd (first_fragment tree2)))"
    using first_fragment_head [OF assms(2)] by auto
  have rA: "rename (first_fragment tree1 # fsA) 0 [] ''A'' [] =
      Inr [(''A0'', \<lparr>entry_parent = [], entry_tree = first_fragment tree1, entry_children = []\<rparr>)]"
    using rename_first_only [OF A(2,3), of "''A''"] by simp
  have rB: "rename (first_fragment tree2 # fsB) 0 [] ''B'' [] =
      Inr [(''B0'', \<lparr>entry_parent = [], entry_tree = first_fragment tree2, entry_children = []\<rparr>)]"
    using rename_first_only [OF B(2,3), of "''B''"] by simp
  show ?thesis
    by (simp add: run_def A(1) B(1) rA rB toList_single generateEditScript_single Let_def)
qed

lemma run_empty:
  assumes "tree1 = [] \<or> tree2 = []"
  shows "run tree1 tree2 algorithm = Some (Inl IndexError)"
  using assms by (auto simp: run_def subTrees_def split: list.splits)



text \<open>
  Claim C9. Relabelling both trees by the same bijection on labels (and the references to
  parent labels by any function) leaves the shape of the outcome of \<^verbatim>\<open>run\<close> unchanged:
  the same operation kinds in the same order, or the same error.
\<close>

theorem run_relabel_shape:
  assumes "bij f"
  shows "script_shape (run (map (relabel f g) tree1) (map (relabel f g) tree2) algorithm)
           = script_shape (run tree1 tree2 algorithm)"
proof (cases "tree1 = [] \<or> tree2 = []")
  case True
  then have "map (relabel f g) tree1 = [] \<or> map (relabel f g) tree2 = []" by simp
  from run_empty [OF this] run_empty [OF True] show ?thesis by simp
next
  case False
  then have ne: "tree1 \<noteq> []" "tree2 \<noteq> []"
    and ne': "map (relabel f g) tree1 \<noteq> []" "map (relabel f g) tree2 \<noteq> []"
    by simp_all
  from run_nonempty [OF ne, of algorithm] run_nonempty [OF ne', of algorithm]
  show ?thesis by (auto simp: script_shape_def)
qed

lemma bij_swap_a_b: "bij swap_a_b"
  by (rule involuntory_imp_bij) (simp add: swap_a_b_def)

theorem run_relabel_shape_witness:
  "bij swap_a_b \<and>
   script_shape (run (map (relabel swap_a_b id)
                        [\<lparr>parentLabel = ''0'', label = Tag ''a'', depth = 0, node_text = None\<rparr>,
                         \<lparr>parentLabel = ''a'', label = Tag ''0'', depth = 1, node_text = None\<rparr>])
                     (map (relabel swap_a_b id)
                        [\<lparr>parentLabel = ''0'', label = Tag ''a'', depth = 0, node_text = None\<rparr>,
                         \<lparr>parentLabel = ''a'', label = Tag ''b'', depth = 1, node_text = None\<rparr>,
                         \<lparr>parentLabel = ''b'', label = Tag ''0'', depth = 2, node_text = None\<rparr>])
                     ''nierman'')
     = script_shape (run [\<lparr>parentLabel = ''0'', label = Tag ''a'', depth = 0, node_text = None\<rparr>,
                          \<lparr>parentLabel = ''a'', label = Tag ''0'', depth = 1, node_text = None\<rparr>]
                         [\<lparr>parentLabel = ''0'', label = Tag ''a'', depth = 0, node_text = None\<rparr>,
                          \<lparr>parentLabel = ''a'', label = Tag ''b'', depth = 1, node_text = None\<rparr>,
                          \<lparr>parentLabel = ''b'', label = Tag ''0'', depth = 2, node_text = None\<rparr>]
                         ''nierman'')"
  using run_relabel_shape [OF bij_swap_a_b, of id] bij_swap_a_b by blast

text \<open>
  Claim C1, evaluated on the code. For a non-empty tree diffed against itself, \<^verbatim>\<open>run\<close>
  returns a script of two operations, not of none: the delete of the first fragment of
  the tree and the insert of the same fragment.
\<close>

theorem run_self_diff:
  assumes "tree1 \<noteq> []"
  shows "\<exists>g. run tree1 tree1 algorithm =
           Some (Inr (g, [(Delete, Some (first_fragment tree1), None),
                          (Insert, None, Some (first_fragment tree1))]))"
  using run_nonempty [OF assms assms, of algorithm] by blast

theorem run_self_diff_witness:
  "\<exists>g. run [\<lparr>parentLabel = ''0'', label = Tag ''a'', depth = 0, node_text = None\<rparr>,
             \<lparr>parentLabel = ''a'', label = Tag ''0'', depth = 1, node_text = None\<rparr>]
            [\<lparr>parentLabel = ''0'', label = Tag ''a'', depth = 0, node_text = None\<rparr>,
             \<lparr>parentLabel = ''a'', label = Tag ''0'', depth = 1, node_text = None\<rparr>]
            ''nierman''
       = Some (Inr (g,
           [(Delete, Some [\<lparr>parentLabel = ''0'', label = Tag ''a'', depth = 0, node_text = None\<rparr>,
                           \<lparr>parentLabel = ''a'', label = Tag ''0'', depth = 1, node_text = None\<rparr>], None),
            (Insert, None, Some [\<lparr>parentLabel = ''0'', label = Tag ''a'', depth = 0, node_text = None\<rparr>,
                                 \<lparr>parentLabel = ''a'', label = Tag ''0'', depth = 1, node_text = None\<rparr>])]))"
  using run_self_diff
    [of "[\<lparr>parentLabel = ''0'', label = Tag ''a'', depth = 0, node_text = None\<rparr>,
          \<lparr>parentLabel = ''a'', label = Tag ''0'', depth = 1, node_text = None\<rparr>]" "''nierman''"]
  by (simp add: first_fragment_def)

text \<open>
  Claim C3, evaluated on the code. On the scenario's two trees \<^verbatim>\<open>run\<close> returns the delete of
  the whole source tree followed by the insert of the whole target tree (its three nodes,
  \<^verbatim>\<open>a\<close> included), and \<^verbatim>\<open>patch\<close> of that script is the list holding that one fragment.
\<close>

theorem run_scenario:
  "\<exists>g. run [\<lparr>parentLabel = ''0'', label = Tag ''a'', depth = 0, node_text = None\<rparr>,
             \<lparr>parentLabel = ''a'', label = Tag ''0'', depth = 1, node_text = None\<rparr>]
            [\<lparr>parentLabel = ''0'', label = Tag ''a'', depth = 0, node_text = None\<rparr>,
             \<lparr>parentLabel = ''a'', label = Tag ''b'', depth = 1, node_text = None\<rparr>,
             \<lparr>parentLabel = ''b'', label = Tag ''0'', depth = 2, node_text = None\<rparr>]
            ''nierman''
       = Some (Inr (g,
           [(Delete, Some [\<lparr>parentLabel = ''0'', label = Tag ''a'', depth = 0, node_text = None\<rparr>,
                           \<lparr>parentLabel = ''a'', label = Tag ''0'', depth = 1, node_text = None\<rparr>], None),
            (Insert, None, Some [\<lparr>parentLabel = ''0'', label = Tag ''a'', depth = 0, node_text = None\<rparr>,
                                 \<lparr>parentLabel = ''a'', label = Tag ''b'', depth = 1, node_text = None\<rparr>,
                                 \<lparr>parentLabel = ''b'', label = Tag ''0'', depth = 2, node_text = None\<rparr>])]))
     \<and> patch [(Delete, Some [\<lparr>parentLabel = ''0'', label = Tag ''a'', depth = 0, node_text = None\<rparr>,
                           \<lparr>parentLabel = ''a'', label = Tag ''0'', depth = 1, node_text = None\<rparr>], None),
            (Insert, None, Some [\<lparr>parentLabel = ''0'', label = Tag ''a'', depth = 0, node_text = None\<rparr>,
                                 \<lparr>parentLabel = ''a'', label = Tag ''b'', depth = 1, node_text = None\<rparr>,
                                 \<lparr>parentLabel = ''b'', label = Tag ''0'', depth = 2, node_text = None\<rparr>])]
        = [Some [\<lparr>parentLabel = ''0'', label = Tag ''a'', depth = 0, node_text = None\<rparr>,
                 \<lparr>parentLabel = ''a'', label = Tag ''b'', depth = 1, node_text = None\<rparr>,
                 \<lparr>parentLabel = ''b'', label = Tag ''0'', depth = 2, node_text = None\<rparr>]]"
  using run_nonempty
    [of "[\<lparr>parentLabel = ''0'', label = Tag ''a'', depth = 0, node_text = None\<rparr>,
          \<lparr>parentLabel = ''a'', label = Tag ''0'', depth = 1, node_text = None\<rparr>]"
        "[\<lparr>parentLabel = ''0'', label = Tag ''a'', depth = 0, node_text = None\<rparr>,
          \<lparr>parentLabel = ''a'', label = Tag ''b'', depth = 1, node_text = None\<rparr>,
          \<lparr>parentLabel = ''b'', label = Tag ''0'', depth = 2, node_text = None\<rparr>]" "''nierman''"]
  by (auto simp: first_fragment_def)

section \<open>The edit script generator on arbitrary dictionaries\<close>

lemma toList_loop_keys:
  assumes "toList_loop d stack result = Some y"
  shows "set result \<subseteq> dom (map_of d) \<longrightarrow> (\<forall>l. y = Inr l \<longrightarrow> set l \<subseteq> dom (map_of d))"
proof (rule toList_loop.raw_induct
    [where P = "\<lambda>d stack result y.
                  set result \<subseteq> dom (map_of d) \<longrightarrow> (\<forall>l. y = Inr l \<longrightarrow> set l \<subseteq> dom (map_of d))",
     OF _ assms], goal_cases)
  case (1 loop d stack result y)
  show ?case
  proof (cases "stack = []")
    case True
    with 1(2) have "y = Inr result" by simp
    then show ?thesis by simp
  next
    case False
    show ?thesis
    proof (cases "map_of d (last stack)")
      case None
      with False 1(2) have "y = Inl KeyError" by (simp add: Let_def)
      then show ?thesis by simp
    next
      case (Some v)
      with False 1(2) have
        "loop d (butlast stack @ rev (entry_children v)) (result @ [last stack]) = Some y"
        by (simp add: Let_def)
      then have "set (result @ [last stack]) \<subseteq> dom (map_of d)
                   \<longrightarrow> (\<forall>l. y = Inr l \<longrightarrow> set l \<subseteq> dom (map_of d))"
        by (rule 1(1))
      moreover have "last stack \<in> dom (map_of d)" using Some by blast
      ultimately show ?thesis by simp
    qed
  qed
qed

lemma toList_keys:
  assumes "toList d = Some (Inr l)"
  shows "set l \<subseteq> dom (map_of d)"
  using toList_loop_keys [of d _ "[]" "Inr l"] assms by (simp add: toList_def)

lemma delete_pass_Inr:
  assumes "delete_pass dA listB xs es = Inr es'"
  shows "es' = es @ map (\<lambda>n. (Delete, map_option entry_tree (map_of dA n), None))
                      [n \<leftarrow> xs. n \<notin> set listB]"
  using assms
proof (induction xs arbitrary: es)
  case Nil
  then show ?case by simp
next
  case (Cons x xs)
  show ?case
  proof (cases "x \<in> set listB")
    case True
    with Cons.prems have "delete_pass dA listB xs es = Inr es'" by simp
    from Cons.IH [OF this] True show ?thesis by simp
  next
    case False
    with Cons.prems obtain v where v: "map_of dA x = Some v"
      and rest: "delete_pass dA listB xs (es @ [(Delete, Some (entry_tree v), None)]) = Inr es'"
      by (auto split: option.splits)
    from Cons.IH [OF rest] False v show ?thesis by simp
  qed
qed

lemma delete_pass_returns:
  assumes "set xs \<subseteq> dom (map_of dA)"
  shows "\<exists>es'. delete_pass dA listB xs es = Inr es'"
  using assms
  by (induction xs arbitrary: es) (auto split: option.splits)

lemma compare_nodes_Inr:
  assumes "compare_nodes algorithm fa fb es = Inr es'"
  shows "[op \<leftarrow> es'. fst op = Delete] = [op \<leftarrow> es. fst op = Delete]
       \<and> [op \<leftarrow> es'. fst op = Insert] = [op \<leftarrow> es. fst op = Insert]"
  using assms by (auto simp: compare_nodes_def split: if_splits prod.splits)

lemma insert_pass_Inr:
  assumes "insert_pass algorithm dA dB listA xs es = Inr es'"
  shows "[op \<leftarrow> es'. fst op = Delete] = [op \<leftarrow> es. fst op = Delete]
       \<and> [op \<leftarrow> es'. fst op = Insert] =
           [op \<leftarrow> es. fst op = Insert]
           @ map (\<lambda>n. (Insert, None, map_option entry_tree (map_of dB n)))
               [n \<leftarrow> xs. n \<notin> set listA]"
  using assms
proof (induction xs arbitrary: es)
  case Nil
  then show ?case by simp
next
  case (Cons x xs)
  show ?case
  proof (cases "x \<in> set listA")
    case False
    with Cons.prems obtain v where v: "map_of dB x = Some v"
      and rest: "insert_pass algorithm dA dB listA xs (es @ [(Insert, None, Some (entry_tree v))]) = Inr es'"
      by (auto split: option.splits)
    from Cons.IH [OF rest] False v show ?thesis by simp
  next
    case True
    with Cons.prems obtain va where va: "map_of dA (last listA) = Some va"
      by (auto split: option.splits)
    with True Cons.prems obtain vb where vb: "map_of dB x = Some vb"
      by (auto split: option.splits)
    with True va Cons.prems obtain es1 where
      "compare_nodes algorithm (entry_tree va) (entry_tree vb) es = Inr es1"
      and rest: "insert_pass algorithm dA dB listA xs es1 = Inr es'"
      by (cases "compare_nodes algorithm (entry_tree va) (entry_tree vb) es") auto
    from compare_nodes_Inr [OF this(1)] Cons.IH [OF rest] True show ?thesis by simp
  qed
qed

lemma insert_pass_returns:
  assumes "set xs \<subseteq> dom (map_of dB)" and "set xs \<inter> set listA = {}"
  shows "\<exists>es'. insert_pass algorithm dA dB listA xs es = Inr es'"
  using assms
  by (induction xs arbitrary: es) (auto split: option.splits)

lemma subtree_within_mono:
  "subtree_within d a k \<Longrightarrow> a \<le> b \<Longrightarrow> subtree_within d b k"
proof (induction a arbitrary: b k)
  case 0
  then show ?case by simp
next
  case (Suc a)
  from Suc.prems(2) obtain b' where b: "b = Suc b'" "a \<le> b'" by (cases b) auto
  from Suc.prems(1) obtain v where v: "map_of d k = Some v"
    and cs: "list_all (subtree_within d a) (entry_children v)"
    by (auto split: option.splits)
  from cs have "list_all (subtree_within d b') (entry_children v)"
    using Suc.IH [OF _ b(2)] by (simp add: list_all_iff)
  with v b show ?case by simp
qed

text \<open>
  On a named-tree map the loop of the flattener ends: it turns the stack into the
  pre-orders of its elements, the last one first.
\<close>

lemma toList_loop_preorder:
  "list_all (subtree_within d n) stack \<Longrightarrow>
     toList_loop d (rest @ stack) result
       = toList_loop d rest (result @ concat (map (preorder d n) (rev stack)))"
proof (induction n arbitrary: stack rest result)
  case 0
  then have "stack = []" by (cases stack) simp_all
  then show ?case by simp
next
  case (Suc n)
  from Suc.prems show ?case
  proof (induction stack arbitrary: result rule: rev_induct)
    case Nil
    show ?case by simp
  next
    case (snoc k s)
    from snoc.prems have s: "list_all (subtree_within d (Suc n)) s"
      and k: "subtree_within d (Suc n) k"
      by (simp_all del: subtree_within.simps)
    from k obtain v where v: "map_of d k = Some v"
      and cs: "list_all (subtree_within d n) (entry_children v)"
      by (auto split: option.splits)
    have "toList_loop d (rest @ s @ [k]) result
            = toList_loop d ((rest @ s) @ rev (entry_children v)) (result @ [k])"
      by (subst toList_loop.simps) (simp add: v Let_def butlast_append)
    also have "\<dots> = toList_loop d (rest @ s)
                      ((result @ [k]) @ concat (map (preorder d n) (rev (rev (entry_children v)))))"
      by (rule Suc.IH) (simp add: cs)
    also have "\<dots> = toList_loop d (rest @ s) (result @ preorder d (Suc n) k)"
      by (simp add: v)
    also have "\<dots> = toList_loop d rest
                      ((result @ preorder d (Suc n) k) @ concat (map (preorder d (Suc n)) (rev s)))"
      by (rule snoc.IH [OF s])
    finally show ?case by (simp del: preorder.simps)
  qed
qed

lemma toList_returns:
  assumes "named_tree_map d n"
  shows "toList d = Some (Inr (flattened d n))"
proof -
  have "toList d = toList_loop d ([] @ roots d) []"
    by (simp add: toList_def roots_def)
  also have "\<dots> = toList_loop d [] ([] @ concat (map (preorder d n) (rev (roots d))))"
    using assms unfolding named_tree_map_def by (rule toList_loop_preorder)
  also have "\<dots> = Some (Inr (flattened d n))"
    by (subst toList_loop.simps) (simp add: flattened_def)
  finally show ?thesis .
qed

text \<open>
  Without that the flattener need not return: on the map of one identity that is its own
  child the loop pushes the identity back for ever.
\<close>

lemma toList_loop_self_child:
  assumes "toList_loop d stack result = Some y"
  shows "\<not> (\<exists>v. d = [(k, v)] \<and> entry_children v = [k] \<and> stack = [k])"
proof (rule toList_loop.raw_induct
    [where P = "\<lambda>d stack result y. \<not> (\<exists>v. d = [(k, v)] \<and> entry_children v = [k] \<and> stack = [k])",
     OF _ assms], goal_cases)
  case (1 loop d stack result y)
  show ?case
  proof
    assume "\<exists>v. d = [(k, v)] \<and> entry_children v = [k] \<and> stack = [k]"
    then obtain v where v: "d = [(k, v)]" "entry_children v = [k]" "stack = [k]" by blast
    with 1(2) have "loop d [k] (result @ [k]) = Some y" by (simp add: Let_def)
    from 1(1) [OF this] v show False by blast
  qed
qed

lemma toList_self_child:
  "toList [(k, \<lparr>entry_parent = [], entry_tree = f, entry_children = [k]\<rparr>)] = None"
proof (cases "toList [(k, \<lparr>entry_parent = [], entry_tree = f, entry_children = [k]\<rparr>)]")
  case None
  then show ?thesis .
next
  case (Some y)
  then have "toList_loop [(k, \<lparr>entry_parent = [], entry_tree = f, entry_children = [k]\<rparr>)] [k] [] = Some y"
    by (simp add: toList_def)
  from toList_loop_self_child [OF this, of k] show ?thesis by simp
qed

lemma generateEditScript_self_child:
  "generateEditScript [(k, \<lparr>entry_parent = [], entry_tree = f, entry_children = [k]\<rparr>)] dB algorithm
     = None"
  by (simp add: generateEditScript_def process_trees_def toList_self_child)

lemma generateEditScript_of_lists:
  assumes "toList dA = Some (Inr listA)" and "toList dB = Some (Inr listB)"
  shows "\<exists>outcome. generateEditScript dA dB algorithm = Some outcome
           \<and> (case outcome of
                Inl err \<Rightarrow> set listA \<inter> set listB \<noteq> {}
              | Inr script \<Rightarrow>
                  [op \<leftarrow> script. fst op = Delete] =
                    map (\<lambda>n. (Delete, map_option entry_tree (map_of dA n), None))
                      [n \<leftarrow> listA. n \<notin> set listB]
                \<and> [op \<leftarrow> script. fst op = Insert] =
                    map (\<lambda>n. (Insert, None, map_option entry_tree (map_of dB n)))
                      [n \<leftarrow> listB. n \<notin> set listA])"
proof -
  from delete_pass_returns [OF toList_keys [OF assms(1)], of listB "[]"]
  obtain es1 where d: "delete_pass dA listB listA [] = Inr es1" by blast
  from delete_pass_Inr [OF d] have es1:
    "es1 = map (\<lambda>n. (Delete, map_option entry_tree (map_of dA n), None)) [n \<leftarrow> listA. n \<notin> set listB]"
    by simp
  have gen: "generateEditScript dA dB algorithm
               = Some (insert_pass algorithm dA dB listA listB es1)"
    by (simp add: generateEditScript_def process_trees_def assms d)
  show ?thesis
  proof (cases "insert_pass algorithm dA dB listA listB es1")
    case (Inl err)
    have "set listA \<inter> set listB \<noteq> {}"
    proof
      assume "set listA \<inter> set listB = {}"
      then have "set listB \<inter> set listA = {}" by blast
      from insert_pass_returns [OF toList_keys [OF assms(2)] this, of algorithm dA es1] Inl
      show False by simp
    qed
    with gen Inl show ?thesis by simp
  next
    case (Inr script)
    from insert_pass_Inr [OF Inr] have
      "[op \<leftarrow> script. fst op = Delete] = [op \<leftarrow> es1. fst op = Delete]"
      "[op \<leftarrow> script. fst op = Insert] = [op \<leftarrow> es1. fst op = Insert]
           @ map (\<lambda>n. (Insert, None, map_option entry_tree (map_of dB n)))
               [n \<leftarrow> listB. n \<notin> set listA]"
      by simp_all
    moreover have "[op \<leftarrow> es1. fst op = Delete] = es1" "[op \<leftarrow> es1. fst op = Insert] = []"
      by (simp_all add: es1 filter_map o_def)
    ultimately show ?thesis using gen Inr es1 by simp
  qed
qed




section \<open>Properties of the indexer\<close>

subsection \<open>Decimal names are injective\<close>

lemma digit_char_inj:
  assumes "a < 10" and "b < 10" and "digit_char a = digit_char b"
  shows "a = b"
proof -
  have "distinct ''0123456789''" by simp
  with assms show ?thesis
    unfolding digit_char_def by (simp add: nth_eq_iff_index_eq)
qed

lemma str_nat_nonempty: "str_nat n \<noteq> []"
  by (subst str_nat.simps) simp

lemma str_nat_length_one: "length (str_nat n) = 1 \<longleftrightarrow> n < 10"
proof (cases "n < 10")
  case True
  then show ?thesis by (subst str_nat.simps) simp
next
  case False
  have "length (str_nat (n div 10)) \<noteq> 0" using str_nat_nonempty by simp
  with False show ?thesis by (subst str_nat.simps) simp
qed

lemma str_nat_inj: "str_nat m = str_nat n \<Longrightarrow> m = n"
proof (induction m arbitrary: n rule: str_nat.induct)
  case (1 m)
  show ?case
  proof (cases "m < 10")
    case True
    with "1.prems" have n: "n < 10" using str_nat_length_one [of m] str_nat_length_one [of n] by simp
    from True n "1.prems" have "digit_char m = digit_char n"
      by (simp add: str_nat.simps [of m] str_nat.simps [of n])
    with True n show ?thesis by (rule digit_char_inj)
  next
    case False
    with "1.prems" have n: "\<not> n < 10" using str_nat_length_one [of m] str_nat_length_one [of n] by simp
    from False n "1.prems" have
      "str_nat (m div 10) @ [digit_char (m mod 10)] = str_nat (n div 10) @ [digit_char (n mod 10)]"
      by (simp add: str_nat.simps [of m] str_nat.simps [of n])
    then have eq: "str_nat (m div 10) = str_nat (n div 10)" "digit_char (m mod 10) = digit_char (n mod 10)"
      by simp_all
    from "1.IH" [OF False eq(1)] have "m div 10 = n div 10" .
    moreover have "m mod 10 = n mod 10"
      by (rule digit_char_inj [OF _ _ eq(2)]) simp_all
    ultimately show ?thesis by (metis div_mult_mod_eq)
  qed
qed

lemma str_nat_eq_iff [simp]: "(str_nat i = str_nat j) = (i = j)"
  using str_nat_inj by auto

lemma name_in_names [simp]: "(prefix @ str_nat i \<in> (\<lambda>i. prefix @ str_nat i) ` {0..<m}) = (i < m)"
  by auto

subsection \<open>The span of a fragment\<close>

lemma span_end_bounds:
  assumes "i < length trees"
  shows "i < span_end trees i" and "span_end trees i \<le> length trees"
proof -
  show "i < span_end trees i" by (simp add: span_end_def)
  have "length (takeWhile (\<lambda>g. base_depth g > base_depth (trees ! i)) (drop (Suc i) trees))
          \<le> length (drop (Suc i) trees)"
    by (rule length_takeWhile_le)
  with assms show "span_end trees i \<le> length trees" by (simp add: span_end_def)
qed

lemma span_end_inside:
  assumes "i < j" and "j < span_end trees i"
  shows "base_depth (trees ! j) > base_depth (trees ! i)"
proof -
  let ?P = "\<lambda>g. base_depth g > base_depth (trees ! i)"
  let ?xs = "drop (Suc i) trees"
  from assms have k: "j - Suc i < length (takeWhile ?P ?xs)" by (simp add: span_end_def)
  then have "takeWhile ?P ?xs ! (j - Suc i) \<in> set (takeWhile ?P ?xs)" by simp
  then have "?P (takeWhile ?P ?xs ! (j - Suc i))" by (rule set_takeWhileD [THEN conjunct2])
  moreover have "takeWhile ?P ?xs ! (j - Suc i) = ?xs ! (j - Suc i)" using k by (rule takeWhile_nth)
  moreover have "j - Suc i < length ?xs" using k length_takeWhile_le [of ?P ?xs] by simp
  then have "?xs ! (j - Suc i) = trees ! j" using assms(1) by simp
  ultimately show ?thesis by simp
qed

lemma span_end_stop:
  assumes "span_end trees i < length trees"
  shows "\<not> base_depth (trees ! span_end trees i) > base_depth (trees ! i)"
proof -
  let ?P = "\<lambda>g. base_depth g > base_depth (trees ! i)"
  let ?xs = "drop (Suc i) trees"
  from assms have "length (takeWhile ?P ?xs) < length ?xs" by (simp add: span_end_def)
  then have "\<not> ?P (?xs ! length (takeWhile ?P ?xs))" by (rule nth_length_takeWhile)
  moreover have "?xs ! length (takeWhile ?P ?xs) = trees ! span_end trees i"
    using assms by (simp add: span_end_def)
  ultimately show ?thesis by simp
qed

lemma span_end_nested:
  assumes "i < j" and "j < span_end trees i" and "i < length trees"
  shows "span_end trees j \<le> span_end trees i"
proof (rule ccontr)
  assume "\<not> span_end trees j \<le> span_end trees i"
  then have lt: "span_end trees i < span_end trees j" by simp
  from assms span_end_bounds [of i trees] have j: "j < length trees" by simp
  from lt span_end_bounds(2) [OF j] have e: "span_end trees i < length trees" by simp
  from span_end_inside [of j "span_end trees i" trees] assms(2) lt
  have "base_depth (trees ! span_end trees i) > base_depth (trees ! j)" by simp
  moreover from span_end_inside [OF assms(1,2)] have "base_depth (trees ! j) > base_depth (trees ! i)" .
  ultimately have "base_depth (trees ! span_end trees i) > base_depth (trees ! i)" by simp
  with span_end_stop [OF e] show False by simp
qed

subsection \<open>Dictionary updates keep the index\<close>

lemma indexed_register:
  assumes "indexed trees prefix m d" and "index \<le> m"
  shows "indexed trees prefix (max m (Suc index))
           (AList.update (prefix @ str_nat index)
              \<lparr>entry_parent = parent, entry_tree = trees ! index, entry_children = []\<rparr> d)"
proof -
  let ?name = "\<lambda>i. prefix @ str_nat i"
  let ?new = "\<lparr>entry_parent = parent, entry_tree = trees ! index, entry_children = []\<rparr>"
  let ?d = "AList.update (?name index) ?new d"
  let ?m = "max m (Suc index)"
  from assms(1) have keys: "map fst d = map ?name [0..<m]"
    and frags: "\<And>i. i < m \<Longrightarrow> map_option entry_tree (map_of d (?name i)) = Some (trees ! i)"
    and kids: "\<And>i e c. i < m \<Longrightarrow> map_of d (?name i) = Some e \<Longrightarrow> c \<in> set (entry_children e)
                 \<Longrightarrow> \<exists>j. i < j \<and> j < m \<and> c = ?name j"
    unfolding indexed_def by blast+
  have old: "i < m" if "i < ?m" "i \<noteq> index" for i
    using that assms(2) by simp
  have look: "map_of ?d (?name i) = (if i = index then Some ?new else map_of d (?name i))" for i
    by (simp add: update_conv')
  have "map fst ?d = map ?name [0..<?m]"
  proof (cases "index < m")
    case True
    then have "max m (Suc index) = m" by simp
    with True keys show ?thesis by (simp add: update_keys)
  next
    case False
    with assms(2) have "index = m" by simp
    with keys show ?thesis by (simp add: update_keys)
  qed
  moreover have "\<forall>i < ?m. map_option entry_tree (map_of ?d (?name i)) = Some (trees ! i)"
    using frags old by (simp add: look)
  moreover have "\<forall>i < ?m. \<forall>e. map_of ?d (?name i) = Some e \<longrightarrow>
            (\<forall>c \<in> set (entry_children e). \<exists>j. i < j \<and> j < ?m \<and> c = ?name j)"
  proof (intro allI impI ballI)
    fix i e c
    assume i: "i < ?m" and e: "map_of ?d (?name i) = Some e" and c: "c \<in> set (entry_children e)"
    show "\<exists>j. i < j \<and> j < ?m \<and> c = ?name j"
    proof (cases "i = index")
      case True
      with e have "e = ?new" by (simp add: look)
      with c show ?thesis by simp
    next
      case False
      with e have "map_of d (?name i) = Some e" by (simp add: look)
      from kids [OF old [OF i False] this c] show ?thesis by auto
    qed
  qed
  ultimately show ?thesis unfolding indexed_def by blast
qed

lemma indexed_children:
  assumes "indexed trees prefix m d" and e: "map_of d (prefix @ str_nat p) = Some e"
    and pj: "p < j" "j < m"
  shows "indexed trees prefix m
           (AList.update (prefix @ str_nat p)
              (e\<lparr>entry_children := entry_children e @ [prefix @ str_nat j]\<rparr>) d)"
proof -
  let ?name = "\<lambda>i. prefix @ str_nat i"
  let ?new = "e\<lparr>entry_children := entry_children e @ [?name j]\<rparr>"
  let ?d = "AList.update (?name p) ?new d"
  from assms(1) have keys: "map fst d = map ?name [0..<m]"
    and frags: "\<And>i. i < m \<Longrightarrow> map_option entry_tree (map_of d (?name i)) = Some (trees ! i)"
    and kids: "\<And>i e c. i < m \<Longrightarrow> map_of d (?name i) = Some e \<Longrightarrow> c \<in> set (entry_children e)
                 \<Longrightarrow> \<exists>j. i < j \<and> j < m \<and> c = ?name j"
    unfolding indexed_def by blast+
  have look: "map_of ?d (?name i) = (if i = p then Some ?new else map_of d (?name i))" for i
    by (simp add: update_conv')
  from e have "?name p \<in> set (map fst d)"
    by (metis map_of_eq_None_iff option.distinct(1) set_map)
  then have "map fst ?d = map ?name [0..<m]"
    using keys by (simp add: update_keys)
  moreover have "\<forall>i < m. map_option entry_tree (map_of ?d (?name i)) = Some (trees ! i)"
  proof (intro allI impI)
    fix i assume i: "i < m"
    show "map_option entry_tree (map_of ?d (?name i)) = Some (trees ! i)"
    proof (cases "i = p")
      case True
      with frags [OF i] e show ?thesis by (simp add: look)
    next
      case False
      with frags [OF i] show ?thesis by (simp add: look)
    qed
  qed
  moreover have "\<forall>i < m. \<forall>e'. map_of ?d (?name i) = Some e' \<longrightarrow>
            (\<forall>c \<in> set (entry_children e'). \<exists>j. i < j \<and> j < m \<and> c = ?name j)"
  proof (intro allI impI ballI)
    fix i e' c
    assume i: "i < m" and e': "map_of ?d (?name i) = Some e'" and c: "c \<in> set (entry_children e')"
    show "\<exists>j. i < j \<and> j < m \<and> c = ?name j"
    proof (cases "i = p")
      case True
      with e' have "e' = ?new" by (simp add: look)
      with c have "c \<in> set (entry_children e) \<or> c = ?name j" by auto
      then show ?thesis
      proof
        assume "c \<in> set (entry_children e)"
        from kids [OF _ e this] i True show ?thesis by simp
      next
        assume "c = ?name j"
        with pj True show ?thesis by blast
      qed
    next
      case False
      with e' have "map_of d (?name i) = Some e'" by (simp add: look)
      from kids [OF i this c] show ?thesis .
    qed
  qed
  ultimately show ?thesis unfolding indexed_def by blast
qed

lemma indexed_key:
  assumes "indexed trees prefix m d" and "i < m"
  shows "\<exists>e. map_of d (prefix @ str_nat i) = Some e"
  using assms by (auto simp: indexed_def)

subsection \<open>What the indexer registers\<close>

lemma rename_loop_indexed:
  assumes above: "\<And>j parent m d. i < j \<Longrightarrow> j < length trees \<Longrightarrow> j \<le> m
            \<Longrightarrow> indexed trees prefix m d \<Longrightarrow> parent = [] \<or> (\<exists>p < j. parent = prefix @ str_nat p)
            \<Longrightarrow> \<exists>d'. rename trees j parent prefix d = Inr d'
                    \<and> indexed trees prefix (max m (span_end trees j)) d'"
    and nonempty: "[] \<notin> set trees" and i: "i < length trees"
  shows "i < j \<Longrightarrow> j \<le> span_end trees i \<Longrightarrow> j \<le> m \<Longrightarrow> i < m \<Longrightarrow> indexed trees prefix m d
           \<Longrightarrow> \<exists>d'. rename_loop trees j (trees ! i) (prefix @ str_nat i) prefix d = Inr d'
                   \<and> indexed trees prefix (max m (span_end trees i)) d'"
proof (induction "length trees - j" arbitrary: j m d rule: less_induct)
  case less
  note bounds = span_end_bounds [OF i]
  show ?case
  proof (cases "j < length trees")
    case False
    with less.prems bounds have "max m (span_end trees i) = m" by simp
    with False less.prems show ?thesis by (simp add: rename_loop.simps [of trees j])
  next
    case True
    from nonempty True obtain a as where a: "trees ! j = a # as"
      by (cases "trees ! j") (auto simp: in_set_conv_nth)
    from nonempty i obtain c cs where c: "trees ! i = c # cs"
      by (cases "trees ! i") (auto simp: in_set_conv_nth)
    have bd: "base_depth (trees ! j) = depth a" "base_depth (trees ! i) = depth c"
      by (simp_all add: base_depth_def a c)
    show ?thesis
    proof (cases "depth a > depth c")
      case deeper: True
      have inside: "j < span_end trees i"
      proof (rule ccontr)
        assume "\<not> j < span_end trees i"
        with less.prems have "j = span_end trees i" by simp
        with True span_end_stop [of trees i] bd deeper show False by simp
      qed
      from less.prems(1)
      have "prefix @ str_nat i = [] \<or> (\<exists>p < j. prefix @ str_nat i = prefix @ str_nat p)" by blast
      from above [OF less.prems(1) True less.prems(3,5) this]
      obtain d1 where d1: "rename trees j (prefix @ str_nat i) prefix d = Inr d1"
        "indexed trees prefix (max m (span_end trees j)) d1"
        by blast
      have "\<exists>d'. rename_loop trees (Suc j) (trees ! i) (prefix @ str_nat i) prefix d1 = Inr d'
              \<and> indexed trees prefix (max (max m (span_end trees j)) (span_end trees i)) d'"
        using True less.prems inside span_end_bounds(1) [OF True] d1(2)
        by (intro less.hyps) simp_all
      moreover from span_end_nested [OF less.prems(1) inside i]
      have "max (max m (span_end trees j)) (span_end trees i) = max m (span_end trees i)" by simp
      ultimately show ?thesis
        using True deeper d1(1) by (simp add: rename_loop.simps [of trees j] a c)
    next
      case shallow: False
      have "j = span_end trees i"
      proof (rule ccontr)
        assume "j \<noteq> span_end trees i"
        with less.prems have "j < span_end trees i" by simp
        from span_end_inside [OF less.prems(1) this] bd shallow show False by simp
      qed
      with less.prems have "max m (span_end trees i) = m" by simp
      with True shallow less.prems show ?thesis
        by (simp add: rename_loop.simps [of trees j] a c)
    qed
  qed
qed

lemma rename_indexed:
  assumes nonempty: "[] \<notin> set trees"
  shows "index < length trees \<Longrightarrow> index \<le> m \<Longrightarrow> indexed trees prefix m d
           \<Longrightarrow> parent = [] \<or> (\<exists>p < index. parent = prefix @ str_nat p)
           \<Longrightarrow> \<exists>d'. rename trees index parent prefix d = Inr d'
                   \<and> indexed trees prefix (max m (span_end trees index)) d'"
proof (induction "length trees - index" arbitrary: index m d parent rule: less_induct)
  case less
  let ?name = "prefix @ str_nat index"
  let ?d1 = "AList.update ?name
               \<lparr>entry_parent = parent, entry_tree = trees ! index, entry_children = []\<rparr> d"
  let ?m1 = "max m (Suc index)"
  have i1: "indexed trees prefix ?m1 ?d1"
    using less.prems(3,2) by (rule indexed_register)
  have "\<exists>d2. (if parent \<noteq> []
               then (case map_of ?d1 parent of
                       None \<Rightarrow> Inl KeyError
                     | Some e \<Rightarrow> Inr (AList.update parent
                                        (e\<lparr>entry_children := entry_children e @ [?name]\<rparr>) ?d1))
               else Inr ?d1) = Inr d2 \<and> indexed trees prefix ?m1 d2"
  proof (cases "parent = []")
    case True
    with i1 show ?thesis by simp
  next
    case False
    with less.prems(4) obtain p where p: "p < index" "parent = prefix @ str_nat p" by blast
    with less.prems(2) have "p < m" by simp
    from indexed_key [OF less.prems(3) this] obtain e where "map_of d parent = Some e"
      by (auto simp: p(2))
    with p have e1: "map_of ?d1 (prefix @ str_nat p) = Some e"
      by (simp add: update_conv')
    have "index < ?m1" by simp
    from indexed_children [OF i1 e1 p(1) this] False e1 p(2) show ?thesis by simp
  qed
  then obtain d2 where d2:
    "(if parent \<noteq> []
      then (case map_of ?d1 parent of
              None \<Rightarrow> Inl KeyError
            | Some e \<Rightarrow> Inr (AList.update parent
                               (e\<lparr>entry_children := entry_children e @ [?name]\<rparr>) ?d1))
      else Inr ?d1) = Inr d2"
    and i2: "indexed trees prefix ?m1 d2"
    by blast
  have "\<exists>d'. rename_loop trees (Suc index) (trees ! index) ?name prefix d2 = Inr d'
          \<and> indexed trees prefix (max ?m1 (span_end trees index)) d'"
  proof (rule rename_loop_indexed [OF _ nonempty less.prems(1) _ _ _ _ i2])
    fix j parent' m' d'
    assume "index < j" "j < length trees" "j \<le> m'" "indexed trees prefix m' d'"
      "parent' = [] \<or> (\<exists>p < j. parent' = prefix @ str_nat p)"
    then show "\<exists>d''. rename trees j parent' prefix d' = Inr d''
                 \<and> indexed trees prefix (max m' (span_end trees j)) d''"
      by (intro less.hyps) simp_all
  next
    show "index < Suc index" by simp
    show "Suc index \<le> span_end trees index" using span_end_bounds(1) [OF less.prems(1)] by simp
    show "Suc index \<le> ?m1" by simp
    show "index < ?m1" by simp
  qed
  moreover have "max ?m1 (span_end trees index) = max m (span_end trees index)"
    using span_end_bounds(1) [OF less.prems(1)] by simp
  ultimately show ?case
    using less.prems(1) d2 by (simp add: rename.simps [of trees index] Let_def)
qed

text \<open>
  Claim C5 (as amended). On a list of non-empty fragments, \<^verbatim>\<open>rename\<close> started at position
  0 with no parent returns a dictionary whose keys are, in extraction order, the names
  \<open>prefix\<close>0, \<open>prefix\<close>1, ... of the first \<open>indexed_count trees\<close> positions: that many distinct
  identities, the identity of position \<open>i\<close> holding fragment \<open>i\<close>. The count is at most the
  length of the list, and it is the length exactly when every fragment after the first is
  deeper than the first.
\<close>

theorem rename_indexes_first_span:
  assumes "[] \<notin> set trees"
  shows "\<exists>d. rename trees 0 [] prefix [] = Inr d
           \<and> map fst d = map (\<lambda>i. prefix @ str_nat i) [0..<indexed_count trees]
           \<and> distinct (map fst d)
           \<and> length d = indexed_count trees
           \<and> indexed_count trees \<le> length trees
           \<and> (\<forall>i < indexed_count trees.
                 map_option entry_tree (map_of d (prefix @ str_nat i)) = Some (trees ! i))
           \<and> (indexed_count trees = length trees
                \<longleftrightarrow> (\<forall>g \<in> set (tl trees). base_depth g > base_depth (hd trees)))"
proof (cases "trees = []")
  case True
  then show ?thesis by (simp add: rename.simps indexed_count_def)
next
  case False
  then have pos: "0 < length trees" by simp
  have "indexed trees prefix 0 []" by (simp add: indexed_def)
  from rename_indexed [OF assms pos _ this, of "[]"]
  obtain d where d: "rename trees 0 [] prefix [] = Inr d"
    "indexed trees prefix (span_end trees 0) d"
    by auto
  from False have cnt: "indexed_count trees = span_end trees 0" by (simp add: indexed_count_def)
  from d(2) have keys: "map fst d = map (\<lambda>i. prefix @ str_nat i) [0..<span_end trees 0]"
    and frags: "\<forall>i < span_end trees 0.
                  map_option entry_tree (map_of d (prefix @ str_nat i)) = Some (trees ! i)"
    by (simp_all add: indexed_def)
  have "inj_on (\<lambda>i. prefix @ str_nat i) (set [0..<span_end trees 0])"
    by (rule inj_onI) simp
  then have dist: "distinct (map fst d)" by (simp add: keys distinct_map)
  from keys have len: "length d = span_end trees 0"
    by (metis length_map length_upt minus_nat.diff_0)
  from False obtain f fs where t: "trees = f # fs" by (cases trees) auto
  have full: "span_end trees 0 = length trees
                \<longleftrightarrow> (\<forall>g \<in> set (tl trees). base_depth g > base_depth (hd trees))"
  proof -
    have "length (takeWhile (\<lambda>g. base_depth g > base_depth f) fs) = length fs
            \<longleftrightarrow> takeWhile (\<lambda>g. base_depth g > base_depth f) fs = fs"
      by (metis takeWhile_eq_take take_all_iff order_refl)
    then show ?thesis by (simp add: span_end_def t)
  qed
  from d(1) keys dist len frags full span_end_bounds(2) [OF pos] show ?thesis
    by (simp add: cnt)
qed


theorem rename_indexes_first_span_witness:
  "[] \<notin> set [[\<lparr>parentLabel = ''0'', label = Tag ''r'', depth = 0, node_text = None\<rparr>],
               [\<lparr>parentLabel = ''r'', label = Tag ''a'', depth = 1, node_text = None\<rparr>,
                \<lparr>parentLabel = ''a'', label = Tag ''0'', depth = 2, node_text = None\<rparr>],
               [\<lparr>parentLabel = ''r'', label = Tag ''b'', depth = 1, node_text = None\<rparr>]]
   \<and> (\<exists>d. rename [[\<lparr>parentLabel = ''0'', label = Tag ''r'', depth = 0, node_text = None\<rparr>],
                   [\<lparr>parentLabel = ''r'', label = Tag ''a'', depth = 1, node_text = None\<rparr>,
                    \<lparr>parentLabel = ''a'', label = Tag ''0'', depth = 2, node_text = None\<rparr>],
                   [\<lparr>parentLabel = ''r'', label = Tag ''b'', depth = 1, node_text = None\<rparr>]]
                  0 [] ''A'' [] = Inr d
          \<and> map fst d = [''A0'', ''A1'', ''A2'']
          \<and> distinct (map fst d)
          \<and> length d = 3)"
proof -
  let ?W = "[[\<lparr>parentLabel = ''0'', label = Tag ''r'', depth = 0, node_text = None\<rparr>],
             [\<lparr>parentLabel = ''r'', label = Tag ''a'', depth = 1, node_text = None\<rparr>,
              \<lparr>parentLabel = ''a'', label = Tag ''0'', depth = 2, node_text = None\<rparr>],
             [\<lparr>parentLabel = ''r'', label = Tag ''b'', depth = 1, node_text = None\<rparr>]]"
  have ne: "[] \<notin> set ?W" by simp
  have cnt: "indexed_count ?W = 3"
    by (simp add: indexed_count_def span_end_def base_depth_def)
  have names: "map (\<lambda>i. ''A'' @ str_nat i) [0..<3] = [''A0'', ''A1'', ''A2'']"
    by code_simp
  from rename_indexes_first_span [OF ne, of "''A''"]
  obtain d where d: "rename ?W 0 [] ''A'' [] = Inr d"
    and keys: "map fst d = map (\<lambda>i. ''A'' @ str_nat i) [0..<indexed_count ?W]"
    and dist: "distinct (map fst d)" and len: "length d = indexed_count ?W"
    by blast
  from keys have keys': "map fst d = [''A0'', ''A1'', ''A2'']" by (simp only: cnt names)
  from len have len': "length d = 3" by (simp only: cnt)
  show ?thesis
    by (intro conjI exI [of _ d]) (fact ne d keys' dist len')+
qed

text \<open>
  The claim as stated promises one identity per fragment. The tree of a node at depth 1
  followed by a node at depth 0 is cut into two fragments; the indexer registers the first
  and stops at the second, which is not deeper and gets no identity.
\<close>

theorem rename_skips_fragment:
  "subTrees [\<lparr>parentLabel = ''0'', label = Tag ''a'', depth = 1, node_text = None\<rparr>,
             \<lparr>parentLabel = ''0'', label = Tag ''b'', depth = 0, node_text = None\<rparr>] []
     = Inr [[\<lparr>parentLabel = ''0'', label = Tag ''a'', depth = 1, node_text = None\<rparr>],
            [\<lparr>parentLabel = ''0'', label = Tag ''b'', depth = 0, node_text = None\<rparr>]]
   \<and> rename [[\<lparr>parentLabel = ''0'', label = Tag ''a'', depth = 1, node_text = None\<rparr>],
              [\<lparr>parentLabel = ''0'', label = Tag ''b'', depth = 0, node_text = None\<rparr>]]
             0 [] ''A'' []
     = Inr [(''A0'', \<lparr>entry_parent = [],
                      entry_tree = [\<lparr>parentLabel = ''0'', label = Tag ''a'', depth = 1, node_text = None\<rparr>],
                      entry_children = []\<rparr>)]"
  by (simp add: subTrees_def rename.simps [of _ 0] rename_loop.simps [of _ "Suc 0"]
        str_nat.simps digit_char_def)

text \<open>
  What the indexer builds on non-empty fragments is a named-tree map (the children of an
  identity are identities of later positions), so the flattener and the generator return
  on every pair of maps the indexer builds.
\<close>

lemma indexed_subtree_within:
  assumes "indexed trees prefix m d"
  shows "i < m \<Longrightarrow> subtree_within d (m - i) (prefix @ str_nat i)"
proof (induction "m - i" arbitrary: i rule: less_induct)
  case less
  from indexed_key [OF assms less.prems] obtain e where e: "map_of d (prefix @ str_nat i) = Some e"
    by blast
  from less.prems obtain r where r: "m - i = Suc r" by (cases "m - i") auto
  have "list_all (subtree_within d r) (entry_children e)"
    unfolding list_all_iff
  proof
    fix c assume "c \<in> set (entry_children e)"
    with assms less.prems e obtain j where j: "i < j" "j < m" "c = prefix @ str_nat j"
      unfolding indexed_def by blast
    then have "subtree_within d (m - j) (prefix @ str_nat j)"
      by (intro less.hyps) simp_all
    moreover from j r have "m - j \<le> r" by simp
    ultimately show "subtree_within d r c" using j(3) by (simp add: subtree_within_mono)
  qed
  with e r show ?case by simp
qed

lemma indexed_named_tree_map:
  assumes "indexed trees prefix m d"
  shows "named_tree_map d m"
  unfolding named_tree_map_def list_all_iff
proof
  fix k assume "k \<in> set (roots d)"
  then have "k \<in> set (map fst d)" by (force simp: roots_def)
  with assms obtain i where i: "i < m" "k = prefix @ str_nat i"
    unfolding indexed_def by auto
  from indexed_subtree_within [OF assms i(1)] i(2) show "subtree_within d m k"
    by (simp add: subtree_within_mono)
qed

lemma rename_named_tree_map:
  assumes "[] \<notin> set trees"
  shows "\<exists>d. rename trees 0 [] prefix [] = Inr d \<and> named_tree_map d (length d)"
proof (cases "trees = []")
  case True
  then show ?thesis by (simp add: rename.simps named_tree_map_def roots_def)
next
  case False
  then have pos: "0 < length trees" by simp
  have "indexed trees prefix 0 []" by (simp add: indexed_def)
  from rename_indexed [OF assms pos _ this, of "[]"]
  obtain d where d: "rename trees 0 [] prefix [] = Inr d"
    "indexed trees prefix (span_end trees 0) d"
    by auto
  from d(2) have "length (map fst d) = span_end trees 0" by (simp add: indexed_def)
  then have "length d = span_end trees 0" by simp
  with indexed_named_tree_map [OF d(2)] d(1) show ?thesis by simp
qed


lemma generateEditScript_after_rename:
  assumes "[] \<notin> set treesA" and "[] \<notin> set treesB"
  shows "\<exists>dA dB outcome. rename treesA 0 [] prefixA [] = Inr dA
           \<and> rename treesB 0 [] prefixB [] = Inr dB
           \<and> generateEditScript dA dB algorithm = Some outcome"
proof -
  from rename_named_tree_map [OF assms(1), of prefixA] obtain dA where
    dA: "rename treesA 0 [] prefixA [] = Inr dA" "named_tree_map dA (length dA)" by blast
  from rename_named_tree_map [OF assms(2), of prefixB] obtain dB where
    dB: "rename treesB 0 [] prefixB [] = Inr dB" "named_tree_map dB (length dB)" by blast
  from generateEditScript_of_lists [OF toList_returns [OF dA(2)] toList_returns [OF dB(2)], of algorithm]
  obtain outcome where "generateEditScript dA dB algorithm = Some outcome" by blast
  with dA(1) dB(1) show ?thesis by blast
qed

end
